theory Spec2Isabelle
  imports Complex_Main "HOL-Library.Multiset"
begin

section \<open>Data model\<close>

text \<open>
  \<^verbatim>\<open>shared.ts\<close>, \<^verbatim>\<open>interface WindowEvent\<close>. The source keeps \<^verbatim>\<open>timestamp\<close> as a
  string and reads it through \<^verbatim>\<open>new Date(...).getTime()\<close>, an integral count of
  milliseconds; the model stores that count. JavaScript numbers are modelled as exact reals.
\<close>

record WindowEvent =
  timestamp :: int
  app_name :: string
  window_title :: "string option"
  browser_url :: "string option"

text \<open>The element type of the array returned by \<^verbatim>\<open>calculateAppDurations\<close>.\<close>

record AppDuration =
  app :: string
  duration :: real

section \<open>The accumulator object\<close>

text \<open>
  \<^verbatim>\<open>const durations: Record<string, number> = {}\<close>: an object used as a dictionary.
  The model keeps the own properties in creation order, since \<^verbatim>\<open>Object.entries\<close>
  depends on it. App names are taken to be ordinary keys, not names of properties inherited
  from \<^verbatim>\<open>Object.prototype\<close>.
\<close>

type_synonym durations_record = "(string \<times> real) list"

definition record_get :: "durations_record \<Rightarrow> string \<Rightarrow> real option" where
  "record_get d k = map_of d k"

fun record_set :: "durations_record \<Rightarrow> string \<Rightarrow> real \<Rightarrow> durations_record" where
  "record_set [] k v = [(k, v)]"
| "record_set ((k', v') # kvs) k v =
     (if k' = k then (k', v) # kvs else (k', v') # record_set kvs k v)"

text \<open>\<^verbatim>\<open>durations[app] || 0\<close>: a missing property and the falsy number 0 both give 0.\<close>

definition or_zero :: "real option \<Rightarrow> real" where
  "or_zero v = (case v of None \<Rightarrow> 0 | Some x \<Rightarrow> if x = 0 then 0 else x)"

text \<open>
  \<^verbatim>\<open>Object.entries\<close> lists own string keys in the order of the language standard: keys
  that are array indices (canonical decimal numerals below \<open>2^32 - 1\<close>) first, in ascending
  numeric order, then every other key in creation order.
\<close>

definition is_digit :: "char \<Rightarrow> bool" where
  "is_digit c = (c \<in> set ''0123456789'')"

definition decimal_value :: "string \<Rightarrow> int" where
  "decimal_value s = foldl (\<lambda>n c. 10 * n + (of_char c - 48)) 0 s"

definition is_array_index :: "string \<Rightarrow> bool" where
  "is_array_index s =
     (s \<noteq> [] \<and> list_all is_digit s \<and> (s = ''0'' \<or> hd s \<noteq> CHR ''0'')
      \<and> decimal_value s < 2 ^ 32 - 1)"

definition Object_entries :: "durations_record \<Rightarrow> (string \<times> real) list" where
  "Object_entries d =
     sort_key (\<lambda>(k, v). decimal_value k) (filter (\<lambda>(k, v). is_array_index k) d)
     @ filter (\<lambda>(k, v). \<not> is_array_index k) d"

section \<open>The duration aggregator\<close>

text \<open>
  \<^verbatim>\<open>calculateAppDurations\<close> in \<^verbatim>\<open>shared.ts\<close>. \<open>loop_body\<close> is one iteration of the
  \<^verbatim>\<open>for\<close> loop at index \<open>i\<close>; \<^verbatim>\<open>events[i + 1]\<close> is \<^verbatim>\<open>undefined\<close> (falsy) exactly
  when \<open>i + 1\<close> is out of range, and then \<^verbatim>\<open>next\<close> is \<^verbatim>\<open>current\<close>.
\<close>

definition LOCKEDSCREEN :: string where
  "LOCKEDSCREEN = ''__LOCKEDSCREEN''"

definition durationSecs :: "WindowEvent list \<Rightarrow> nat \<Rightarrow> real" where
  "durationSecs events i =
     (let current = timestamp (events ! i);
          next = (if i + 1 < length events then timestamp (events ! (i + 1)) else current)
      in real_of_int (next - current) / 1000)"

definition cappedDuration :: "WindowEvent list \<Rightarrow> nat \<Rightarrow> real" where
  "cappedDuration events i = min (durationSecs events i) (30 * 60)"

definition loop_body :: "WindowEvent list \<Rightarrow> durations_record \<Rightarrow> nat \<Rightarrow> durations_record" where
  "loop_body events durations i =
     (let app = app_name (events ! i)
      in record_set durations app (or_zero (record_get durations app) + cappedDuration events i))"

definition accumulate :: "WindowEvent list \<Rightarrow> durations_record" where
  "accumulate events = foldl (loop_body events) [] [0..<length events]"

text \<open>
  The comparator \<^verbatim>\<open>(a, b) => b[1] - a[1]\<close> orders by descending duration, and
  \<^verbatim>\<open>Array.prototype.sort\<close> is stable: an insertion sort on the negated duration.
\<close>

definition calculateAppDurations :: "WindowEvent list \<Rightarrow> AppDuration list" where
  "calculateAppDurations events =
     map (\<lambda>(a, d). \<lparr>app = a, duration = d\<rparr>)
       (sort_key (\<lambda>(a, d). - d)
         (filter (\<lambda>(a, d). a \<noteq> LOCKEDSCREEN)
           (Object_entries (accumulate events))))"




text \<open>Events for concrete runs: only the two fields the aggregator reads vary.\<close>

definition event_at :: "int \<Rightarrow> string \<Rightarrow> WindowEvent" where
  "event_at t a = \<lparr>timestamp = t, app_name = a, window_title = None, browser_url = None\<rparr>"

section \<open>The tracker database\<close>

text \<open>
  \<^verbatim>\<open>tracker-db.ts\<close> reads two tables of the DuckDB file written by the recorder. The
  queries name their columns: \<^verbatim>\<open>window_events\<close> has the four columns of a
  \<open>WindowEvent\<close> and \<^verbatim>\<open>logical_date\<close>; \<^verbatim>\<open>key_events\<close> has \<^verbatim>\<open>timestamp\<close>,
  \<^verbatim>\<open>key_count\<close> and \<^verbatim>\<open>logical_date\<close>. A \<^verbatim>\<open>DATE\<close> is modelled by its day number,
  which orders as the dates do, and a \<^verbatim>\<open>TIMESTAMP\<close> by its milliseconds. The columns
  read here hold no \<^verbatim>\<open>NULL\<close>.
\<close>

type_synonym logical_date = int

record window_events_row = WindowEvent +
  w_logical_date :: logical_date

record key_events_row =
  k_timestamp :: int
  k_key_count :: int
  k_logical_date :: logical_date

record database =
  window_events :: "window_events_row list"
  key_events :: "key_events_row list"

text \<open>
  \<^verbatim>\<open>withDB\<close> throws when the database file does not exist and otherwise runs the
  callback on a connection. The file system is a \<open>database option\<close>.
\<close>

datatype error = DatabaseNotFound

definition withDB :: "database option \<Rightarrow> (database \<Rightarrow> 'a) \<Rightarrow> error + 'a" where
  "withDB file fn = (case file of None \<Rightarrow> Inl DatabaseNotFound | Some conn \<Rightarrow> Inr (fn conn))"

text \<open>\<^verbatim>\<open>ORDER BY ... DESC\<close> on a list of dates.\<close>

definition order_by_desc :: "logical_date list \<Rightarrow> logical_date list" where
  "order_by_desc ds = rev (sort ds)"

text \<open>
  \<^verbatim>\<open>getAvailableDates\<close>: the distinct dates of the union of both tables, newest first.
  The \<^verbatim>\<open>row[0] != null\<close> filter keeps every row of the model; \<^verbatim>\<open>formatDateLabel\<close>
  renders through the locale library and is passed in.
\<close>

definition getAvailableDates ::
  "(logical_date \<Rightarrow> string) \<Rightarrow> database option \<Rightarrow> error + (logical_date \<times> string) list" where
  "getAvailableDates formatDateLabel file =
     withDB file (\<lambda>conn.
       map (\<lambda>dateStr. (dateStr, formatDateLabel dateStr))
         (order_by_desc
           (remdups (map w_logical_date (window_events conn)
                     @ map k_logical_date (key_events conn)))))"

text \<open>
  \<^verbatim>\<open>getDayData\<close>, the \<^verbatim>\<open>window_events\<close> field of its result: the events of one date
  ordered by timestamp, as the dashboard hands them to \<^verbatim>\<open>calculateAppDurations\<close>.
\<close>

definition getDayData_window_events :: "database option \<Rightarrow> logical_date \<Rightarrow> error + WindowEvent list" where
  "getDayData_window_events file logicalDate =
     withDB file (\<lambda>conn.
       map WindowEvent.truncate
         (sort_key timestamp (filter (\<lambda>w. w_logical_date w = logicalDate) (window_events conn))))"

text \<open>
  \<^verbatim>\<open>getOverview\<close>. The \<^verbatim>\<open>WHERE\<close> clause has a condition for each bound that is given
  (\<^verbatim>\<open>undefined\<close> and the empty string are both falsy: \<open>None\<close>). The scalar subquery
  \<^verbatim>\<open>SUM(key_count)\<close> is \<^verbatim>\<open>NULL\<close> over no rows, which \<^verbatim>\<open>COALESCE\<close> turns into 0.
  The function passes \<^verbatim>\<open>limit\<close> to \<^verbatim>\<open>LIMIT\<close> as it is, with no check of its own; a
  negative or fractional limit is left to the engine and is outside the model.
\<close>

record DailySummary =
  logical_date :: logical_date
  total_keys :: int
  unique_apps :: nat

definition where_clause :: "logical_date option \<Rightarrow> logical_date option \<Rightarrow> window_events_row \<Rightarrow> bool" where
  "where_clause fromDate toDate w =
     ((case fromDate of None \<Rightarrow> True | Some f \<Rightarrow> w_logical_date w \<ge> f)
      \<and> (case toDate of None \<Rightarrow> True | Some t \<Rightarrow> w_logical_date w \<le> t))"

definition sum_key_count :: "database \<Rightarrow> logical_date \<Rightarrow> int option" where
  "sum_key_count conn d =
     (case filter (\<lambda>k. k_logical_date k = d) (key_events conn) of
        [] \<Rightarrow> None
      | ks \<Rightarrow> Some (sum_list (map k_key_count ks)))"

definition coalesce :: "int option \<Rightarrow> int \<Rightarrow> int" where
  "coalesce v dflt = (case v of None \<Rightarrow> dflt | Some x \<Rightarrow> x)"

definition getOverview ::
  "database option \<Rightarrow> logical_date option \<Rightarrow> logical_date option \<Rightarrow> nat
     \<Rightarrow> error + DailySummary list" where
  "getOverview file fromDate toDate limit =
     withDB file (\<lambda>conn.
       let w = filter (where_clause fromDate toDate) (window_events conn);
           groups = remdups (map w_logical_date w)
       in map (\<lambda>d. \<lparr>logical_date = d,
                     total_keys = coalesce (sum_key_count conn d) 0,
                     unique_apps =
                       length (remdups (map app_name (filter (\<lambda>r. w_logical_date r = d) w)))\<rparr>)
            (take limit (order_by_desc groups)))"


text \<open>
  \<^verbatim>\<open>getAppUsageForDate\<close>. \<open>event_durations\<close> is the common table expression:
  \<^verbatim>\<open>LEAD(timestamp) OVER (ORDER BY timestamp)\<close> is the timestamp of the next row in
  timestamp order, \<^verbatim>\<open>NULL\<close> on the last row (rows with equal timestamps are taken in
  table order). The outer query sums, per app, the seconds to the next timestamp, counts
  the rows, and orders by the sum, descending. A row of the result is
  \<open>(app_name, duration_seconds, event_count)\<close>.
\<close>

definition event_durations :: "database \<Rightarrow> logical_date \<Rightarrow> (string \<times> int \<times> int option) list" where
  "event_durations conn logicalDate =
     (let rows = sort_key timestamp
                   (filter (\<lambda>w. w_logical_date w = logicalDate) (window_events conn))
      in map (\<lambda>i. (app_name (rows ! i), timestamp (rows ! i),
                     if i + 1 < length rows then Some (timestamp (rows ! (i + 1))) else None))
           [0..<length rows])"

definition epoch_case :: "string \<times> int \<times> int option \<Rightarrow> real" where
  "epoch_case row =
     (case row of (a, ts, next_timestamp) \<Rightarrow>
        (case next_timestamp of Some nxt \<Rightarrow> real_of_int (nxt - ts) / 1000 | None \<Rightarrow> 0))"

definition getAppUsageForDate ::
  "database option \<Rightarrow> logical_date \<Rightarrow> error + (string \<times> real \<times> nat) list" where
  "getAppUsageForDate file logicalDate =
     withDB file (\<lambda>conn.
       let eds = event_durations conn logicalDate;
           groups = remdups (map fst eds)
       in sort_key (\<lambda>(a, duration_seconds, event_count). - duration_seconds)
            (map (\<lambda>a. (a,
                        sum_list (map epoch_case (filter (\<lambda>row. fst row = a) eds)),
                        length (filter (\<lambda>row. fst row = a) eds)))
               groups))"

text \<open>Rows for concrete runs.\<close>

definition window_row :: "int \<Rightarrow> string \<Rightarrow> logical_date \<Rightarrow> window_events_row" where
  "window_row t a d =
     \<lparr>timestamp = t, app_name = a, window_title = None, browser_url = None, w_logical_date = d\<rparr>"

definition key_row :: "int \<Rightarrow> int \<Rightarrow> logical_date \<Rightarrow> key_events_row" where
  "key_row t n d = \<lparr>k_timestamp = t, k_key_count = n, k_logical_date = d\<rparr>"


section \<open>The categorizer\<close>

record CategoryRule =
  pattern :: string
  category :: string

text \<open>
  Modelled from the spec: the categorize operation. No function of the sources applies the
  category rules (\<^verbatim>\<open>Settings.tsx\<close> only edits and saves them), so this follows section
  4.2: iterate the rules in configured order, evaluate each pattern as a regular expression
  against the subject, return the category on the first match, and \<open>uncategorized\<close> when
  none matches. The regular-expression engine is the parameter \<open>matches\<close>.
\<close>

fun categorize :: "(string \<Rightarrow> string \<Rightarrow> bool) \<Rightarrow> string \<Rightarrow> CategoryRule list \<Rightarrow> string" where
  "categorize matches subject [] = ''uncategorized''"
| "categorize matches subject (r # rules) =
     (if matches (pattern r) subject then category r else categorize matches subject rules)"

text \<open>
  A matcher for concrete runs, exact on patterns that are alternations of literal strings:
  the pattern matches when one of its alternatives occurs in the subject.
\<close>

fun starts_with :: "string \<Rightarrow> string \<Rightarrow> bool" where
  "starts_with [] s = True"
| "starts_with (p # ps) [] = False"
| "starts_with (p # ps) (c # cs) = (p = c \<and> starts_with ps cs)"

fun occurs_in :: "string \<Rightarrow> string \<Rightarrow> bool" where
  "occurs_in p [] = (p = [])"
| "occurs_in p (c # cs) = (starts_with p (c # cs) \<or> occurs_in p cs)"

fun alternatives :: "string \<Rightarrow> string \<Rightarrow> string list" where
  "alternatives acc [] = [rev acc]"
| "alternatives acc (c # cs) =
     (if c = CHR ''|'' then rev acc # alternatives [] cs else alternatives (c # acc) cs)"

definition literal_match :: "string \<Rightarrow> string \<Rightarrow> bool" where
  "literal_match p subject = list_ex (\<lambda>alt. occurs_in alt subject) (alternatives [] p)"

section \<open>Properties of the accumulator\<close>

lemma map_of_record_set: "map_of (record_set d k v) = (map_of d)(k \<mapsto> v)"
  by (induction d) (auto simp: fun_eq_iff)

lemma record_get_set: "record_get (record_set d k v) k' = (if k' = k then Some v else record_get d k')"
  by (simp add: record_get_def map_of_record_set)

lemma keys_record_set:
  "map fst (record_set d k v) = (if k \<in> set (map fst d) then map fst d else map fst d @ [k])"
  by (induction d) force+

lemma distinct_record_set: "distinct (map fst d) \<Longrightarrow> distinct (map fst (record_set d k v))"
  by (simp add: keys_record_set)

lemma or_zero_simps [simp]: "or_zero None = 0" "or_zero (Some x) = x"
  by (simp_all add: or_zero_def)

lemma bucket_loop_body:
  "or_zero (record_get (loop_body events d i) a) =
     (if a = app_name (events ! i)
      then or_zero (record_get d a) + cappedDuration events i
      else or_zero (record_get d a))"
  by (simp add: loop_body_def Let_def record_get_set)

lemma keys_loop_body:
  "fst ` set (loop_body events d i) = insert (app_name (events ! i)) (fst ` set d)"
proof -
  have "set (map fst (loop_body events d i)) = insert (app_name (events ! i)) (set (map fst d))"
    unfolding loop_body_def Let_def keys_record_set by auto
  then show ?thesis by simp
qed

lemma distinct_loop_body:
  "distinct (map fst d) \<Longrightarrow> distinct (map fst (loop_body events d i))"
  by (simp add: loop_body_def Let_def distinct_record_set)

lemma upt_index_set:
  "{i. i < Suc n \<and> P i} = (if P n then insert n {i. i < n \<and> P i} else {i. i < n \<and> P i})"
  by (auto simp: less_Suc_eq)

lemma bucket_foldl:
  "or_zero (record_get (foldl (loop_body events) [] [0..<n]) a) =
     (\<Sum>i | i < n \<and> app_name (events ! i) = a. cappedDuration events i)"
proof (induction n)
  case 0
  show ?case by (simp add: record_get_def)
next
  case (Suc n)
  have fin: "finite {i. i < n \<and> app_name (events ! i) = a}" by simp
  have notin: "n \<notin> {i. i < n \<and> app_name (events ! i) = a}" by simp
  show ?case
  proof (cases "app_name (events ! n) = a")
    case True
    then have "{i. i < Suc n \<and> app_name (events ! i) = a}
        = insert n {i. i < n \<and> app_name (events ! i) = a}"
      by (simp add: upt_index_set)
    with True Suc fin notin show ?thesis
      by (simp add: bucket_loop_body)
  next
    case False
    then have "{i. i < Suc n \<and> app_name (events ! i) = a}
        = {i. i < n \<and> app_name (events ! i) = a}"
      by (simp add: upt_index_set)
    with False Suc show ?thesis
      by (auto simp: bucket_loop_body)
  qed
qed

lemma keys_foldl:
  "n \<le> length events \<Longrightarrow>
     fst ` set (foldl (loop_body events) [] [0..<n]) = app_name ` set (take n events)"
proof (induction n)
  case 0
  show ?case by simp
next
  case (Suc n)
  then have "n < length events" by simp
  then have "take (Suc n) events = take n events @ [events ! n]"
    by (simp add: take_Suc_conv_app_nth)
  with Suc show ?case
    by (simp add: keys_loop_body)
qed

lemma distinct_foldl: "distinct (map fst (foldl (loop_body events) [] [0..<n]))"
  by (induction n) (simp_all add: distinct_loop_body)

lemma keys_accumulate: "fst ` set (accumulate events) = app_name ` set events"
  by (simp add: accumulate_def keys_foldl)

lemma distinct_accumulate: "distinct (map fst (accumulate events))"
  by (simp add: accumulate_def distinct_foldl)

lemma cappedDuration_last: "Suc i = length events \<Longrightarrow> cappedDuration events i = 0"
  by (simp add: cappedDuration_def durationSecs_def)

lemma cappedDuration_inner:
  "Suc i < length events \<Longrightarrow>
     cappedDuration events i =
       min (real_of_int (timestamp (events ! Suc i) - timestamp (events ! i)) / 1000) 1800"
  by (simp add: cappedDuration_def durationSecs_def)


lemma set_Object_entries: "set (Object_entries d) = set d"
  by (auto simp: Object_entries_def)




lemma output_entries:
  "set (calculateAppDurations events) =
     (\<lambda>(a, d). \<lparr>app = a, duration = d\<rparr>) ` {(a, d). (a, d) \<in> set (accumulate events) \<and> a \<noteq> LOCKEDSCREEN}"
  by (auto simp: calculateAppDurations_def set_Object_entries)









subsection \<open>Order of the entries\<close>















section \<open>Properties of the database queries\<close>

lemma withDB_Some [simp]: "withDB (Some conn) fn = Inr (fn conn)"
  by (simp add: withDB_def)

lemma set_order_by_desc [simp]: "set (order_by_desc ds) = set ds"
  by (simp add: order_by_desc_def)

lemma length_filter_order_by_desc:
  "length (filter P (order_by_desc ds)) = length (filter P ds)"
proof -
  have "mset (filter P (order_by_desc ds)) = mset (filter P ds)"
    by (simp add: order_by_desc_def)
  then have "size (mset (filter P (order_by_desc ds))) = size (mset (filter P ds))"
    by (simp only:)
  then show ?thesis by (simp only: size_mset)
qed

lemma order_by_desc_prefix_newer:
  assumes "distinct ds" and "i < length (order_by_desc ds)"
  shows "filter (\<lambda>y. order_by_desc ds ! i < y) (take i (order_by_desc ds)) = take i (order_by_desc ds)"
proof -
  let ?zs = "order_by_desc ds"
  have desc: "sorted (rev ?zs)" and dist: "distinct ?zs"
    using assms(1) by (simp_all add: order_by_desc_def)
  have "?zs ! i < y" if "y \<in> set (take i ?zs)" for y
  proof -
    from that obtain j where j: "j < i" "y = ?zs ! j"
      by (auto simp: in_set_conv_nth)
    with desc assms(2) have "?zs ! i \<le> ?zs ! j"
      by (simp add: sorted_rev_nth_mono)
    moreover have "?zs ! i \<noteq> ?zs ! j"
      using dist j assms(2) by (simp add: nth_eq_iff_index_eq)
    ultimately show ?thesis using j by simp
  qed
  then show ?thesis by (simp add: filter_id_conv)
qed

lemma in_take_order_by_desc:
  assumes "distinct ds" and "d \<in> set ds"
    and "length (filter (\<lambda>y. d < y) ds) < limit"
  shows "d \<in> set (take limit (order_by_desc ds))"
proof -
  let ?zs = "order_by_desc ds"
  from assms(2) have "d \<in> set ?zs" by simp
  then obtain i where i: "i < length ?zs" "?zs ! i = d"
    unfolding in_set_conv_nth by blast
  have "i = length (filter (\<lambda>y. d < y) (take i ?zs))"
    using order_by_desc_prefix_newer [OF assms(1) i(1)] i by simp
  also have "\<dots> \<le> length (filter (\<lambda>y. d < y) (take i ?zs @ drop i ?zs))"
    by (simp only: filter_append length_append)
  also have "\<dots> = length (filter (\<lambda>y. d < y) ds)"
    by (simp add: length_filter_order_by_desc)
  finally have "i < limit" using assms(3) by simp
  with i show ?thesis
    by (auto simp: in_set_conv_nth intro!: exI [of _ i])
qed

lemma sum_key_count_None:
  "d \<notin> k_logical_date ` set (key_events db) \<Longrightarrow> sum_key_count db d = None"
proof -
  assume "d \<notin> k_logical_date ` set (key_events db)"
  then have "filter (\<lambda>k. k_logical_date k = d) (key_events db) = []"
    by (auto simp: filter_empty_conv)
  then show ?thesis by (simp add: sum_key_count_def)
qed

lemma sum_list_filter_upt:
  fixes f :: "'a \<Rightarrow> real"
  shows "sum_list (map f (filter P (map g [0..<n]))) = (\<Sum>i | i < n \<and> P (g i). f (g i))"
proof (induction n)
  case 0
  show ?case by simp
next
  case (Suc n)
  have fin: "finite {i. i < n \<and> P (g i)}" by simp
  show ?case
  proof (cases "P (g n)")
    case True
    then have "{i. i < Suc n \<and> P (g i)} = insert n {i. i < n \<and> P (g i)}"
      by (simp add: upt_index_set)
    with True Suc fin show ?thesis by simp
  next
    case False
    then have "{i. i < Suc n \<and> P (g i)} = {i. i < n \<and> P (g i)}"
      by (simp add: upt_index_set)
    with False Suc show ?thesis by simp
  qed
qed

lemma truncate_fields [simp]:
  "timestamp (WindowEvent.truncate r) = timestamp r"
  "app_name (WindowEvent.truncate r) = app_name r"
  by (simp_all add: WindowEvent.truncate_def)

lemma entry_accumulate:
  assumes "a \<in> app_name ` set events"
  shows "(a, or_zero (record_get (accumulate events) a)) \<in> set (accumulate events)"
proof -
  from assms have "a \<in> fst ` set (accumulate events)"
    by (simp add: keys_accumulate)
  then obtain v where v: "(a, v) \<in> set (accumulate events)" by auto
  then have "map_of (accumulate events) a = Some v"
    using distinct_accumulate by simp
  with v show ?thesis by (simp add: record_get_def)
qed

text \<open>
  Where no gap between consecutive events of the date exceeds 1800 seconds, every row of
  \<^verbatim>\<open>getAppUsageForDate\<close> for an app other than \<open>__LOCKEDSCREEN\<close> is an entry of
  \<^verbatim>\<open>calculateAppDurations\<close> on the events of that date: the two differ only by the cap
  and the sentinel.
\<close>

lemma getAppUsageForDate_agrees_below_cap:
  assumes usage: "getAppUsageForDate (Some db) d = Inr usage"
    and events: "getDayData_window_events (Some db) d = Inr events"
    and short: "\<forall>i. Suc i < length events \<longrightarrow>
        timestamp (events ! Suc i) - timestamp (events ! i) \<le> 1800 * 1000"
    and row: "(a, secs, n) \<in> set usage" and a: "a \<noteq> LOCKEDSCREEN"
  shows "\<lparr>app = a, duration = secs\<rparr> \<in> set (calculateAppDurations events)"
proof -
  define rows where "rows = sort_key timestamp (filter (\<lambda>w. w_logical_date w = d) (window_events db))"
  define g where "g = (\<lambda>i. (app_name (rows ! i), timestamp (rows ! i),
      if i + 1 < length rows then Some (timestamp (rows ! (i + 1))) else None))"
  have ev: "events = map WindowEvent.truncate rows"
    using events by (simp add: getDayData_window_events_def rows_def)
  have eds: "event_durations db d = map g [0..<length rows]"
    by (simp add: event_durations_def Let_def rows_def g_def)
  have len: "length events = length rows" by (simp add: ev)
  have nth_ts: "timestamp (events ! i) = timestamp (rows ! i)"
    and nth_app: "app_name (events ! i) = app_name (rows ! i)" if "i < length rows" for i
    using that by (simp_all add: ev)
  have gap: "epoch_case (g i) = cappedDuration events i" if "i < length rows" for i
  proof (cases "Suc i < length rows")
    case True
    with short have "timestamp (events ! Suc i) - timestamp (events ! i) \<le> 1800 * 1000"
      by (simp add: len)
    then have "real_of_int (timestamp (events ! Suc i) - timestamp (events ! i)) / 1000 \<le> 1800"
      by simp
    with True that show ?thesis
      by (simp add: epoch_case_def g_def cappedDuration_inner len nth_ts)
  next
    case False
    with that have "Suc i = length rows" by simp
    then show ?thesis
      by (simp add: epoch_case_def g_def cappedDuration_last len)
  qed
  from usage row have mem: "a \<in> fst ` set (event_durations db d)"
    and secs: "secs = sum_list (map epoch_case (filter (\<lambda>row. fst row = a) (event_durations db d)))"
    by (auto simp: getAppUsageForDate_def Let_def)
  have "secs = (\<Sum>i | i < length rows \<and> fst (g i) = a. epoch_case (g i))"
    by (simp only: secs eds sum_list_filter_upt)
  also have "\<dots> = (\<Sum>i | i < length events \<and> app_name (events ! i) = a. cappedDuration events i)"
  proof (rule sum.cong)
    have "fst (g i) = app_name (rows ! i)" for i by (simp add: g_def)
    then show "{i. i < length rows \<and> fst (g i) = a}
        = {i. i < length events \<and> app_name (events ! i) = a}"
      by (auto simp: len nth_app)
  next
    fix i assume "i \<in> {i. i < length events \<and> app_name (events ! i) = a}"
    then show "epoch_case (g i) = cappedDuration events i"
      by (simp add: gap len)
  qed
  also have "\<dots> = or_zero (record_get (accumulate events) a)"
    by (simp only: accumulate_def bucket_foldl)
  finally have secs_eq: "secs = or_zero (record_get (accumulate events) a)" .
  from mem have "a \<in> app_name ` set events"
    by (auto simp: eds g_def ev in_set_conv_nth image_iff intro!: bexI)
  then have "(a, secs) \<in> set (accumulate events)"
    unfolding secs_eq by (rule entry_accumulate)
  with a show ?thesis
    by (force simp: output_entries)
qed

section \<open>Claims about the duration aggregator\<close>



text \<open>
  C2. \<open>__LOCKEDSCREEN\<close> is never the app of an output entry, whatever the input; the
  accumulation loop itself does not skip it (it gets a bucket like any other app), the
  filter after the loop removes it.
\<close>

theorem lockedscreen_never_in_output:
  "LOCKEDSCREEN \<notin> app ` set (calculateAppDurations events)
   \<and> (LOCKEDSCREEN \<in> app_name ` set events
        \<longrightarrow> LOCKEDSCREEN \<in> fst ` set (accumulate events))"
  by (auto simp: calculateAppDurations_def keys_accumulate)

theorem lockedscreen_never_in_output_witness:
  "LOCKEDSCREEN \<in> app_name ` set [event_at 0 LOCKEDSCREEN, event_at 600000 ''Chrome'']
   \<and> LOCKEDSCREEN \<in> fst ` set (accumulate [event_at 0 LOCKEDSCREEN, event_at 600000 ''Chrome''])
   \<and> LOCKEDSCREEN \<notin> app ` set (calculateAppDurations
         [event_at 0 LOCKEDSCREEN, event_at 600000 ''Chrome''])"
  using lockedscreen_never_in_output [of "[event_at 0 LOCKEDSCREEN, event_at 600000 ''Chrome'']"]
  by (simp add: event_at_def)










section \<open>Claims about the database queries\<close>

text \<open>
  C3. The claim is that \<^verbatim>\<open>getAppUsageForDate\<close> and \<^verbatim>\<open>calculateAppDurations\<close> give
  the same per-app durations for the events of a date, both capping each gap at 1800
  seconds and both leaving out \<open>__LOCKEDSCREEN\<close>. The query does neither: on a day with a
  locked screen for 600 seconds and then two Chrome events 5000 seconds apart it reports
  5000 seconds of Chrome and 600 seconds of \<open>__LOCKEDSCREEN\<close>, where the in-memory
  aggregator reports 1800 seconds of Chrome and nothing else.
\<close>

theorem getAppUsageForDate_uncapped_and_unfiltered:
  "getAppUsageForDate (Some
       \<lparr>window_events = [window_row 0 LOCKEDSCREEN 20000, window_row 600000 ''Chrome'' 20000,
                          window_row 5600000 ''Chrome'' 20000],
        key_events = []\<rparr>) 20000
     = Inr [(''Chrome'', 5000, 2), (LOCKEDSCREEN, 600, 1)]
   \<and> map_sum id calculateAppDurations (getDayData_window_events (Some
       \<lparr>window_events = [window_row 0 LOCKEDSCREEN 20000, window_row 600000 ''Chrome'' 20000,
                          window_row 5600000 ''Chrome'' 20000],
        key_events = []\<rparr>) 20000)
     = Inr [\<lparr>app = ''Chrome'', duration = 1800\<rparr>]"
  by code_simp



text \<open>
  C8. A date that has a window event and no key events is in the output of
  \<^verbatim>\<open>getOverview\<close> with \<open>total_keys = 0\<close>, whatever else the database holds: the missing key
  events never drop it. The date is one the query asks for: it passes the
  \<^verbatim>\<open>WHERE\<close> clause, and fewer than \<open>limit\<close> newer dates in range precede it.
\<close>

theorem overview_keeps_date_without_key_events:
  assumes "w \<in> set (window_events db)" and "w_logical_date w = d"
    and "d \<notin> k_logical_date ` set (key_events db)"
    and "where_clause fromDate toDate w"
    and "length (filter (\<lambda>d'. d < d')
           (remdups (map w_logical_date
              (filter (where_clause fromDate toDate) (window_events db))))) < limit"
  shows "\<exists>rows. getOverview (Some db) fromDate toDate limit = Inr rows
           \<and> (\<exists>r \<in> set rows. logical_date r = d \<and> total_keys r = 0)"
proof -
  let ?groups = "remdups (map w_logical_date
      (filter (where_clause fromDate toDate) (window_events db)))"
  have "d \<in> set ?groups"
    using assms(1,2,4) by force
  then have "d \<in> set (take limit (order_by_desc ?groups))"
    using assms(5) by (intro in_take_order_by_desc) simp_all
  moreover have "coalesce (sum_key_count db d) 0 = 0"
    using assms(3) by (simp add: sum_key_count_None coalesce_def)
  ultimately show ?thesis
    by (force simp: getOverview_def Let_def)
qed


theorem overview_keeps_date_without_key_events_witness:
  "window_row 0 ''Chrome'' 20000 \<in> set (window_events
       \<lparr>window_events = [window_row 0 ''Chrome'' 20000, window_row 90000000 ''Mail'' 20001],
        key_events = [key_row 90000001 12 20001]\<rparr>)
   \<and> w_logical_date (window_row 0 ''Chrome'' 20000) = 20000
   \<and> 20000 \<notin> k_logical_date ` set (key_events
       \<lparr>window_events = [window_row 0 ''Chrome'' 20000, window_row 90000000 ''Mail'' 20001],
        key_events = [key_row 90000001 12 20001]\<rparr>)
   \<and> where_clause None None (window_row 0 ''Chrome'' 20000)
   \<and> (\<exists>rows. getOverview (Some
       \<lparr>window_events = [window_row 0 ''Chrome'' 20000, window_row 90000000 ''Mail'' 20001],
        key_events = [key_row 90000001 12 20001]\<rparr>) None None 30 = Inr rows
      \<and> (\<exists>r \<in> set rows. logical_date r = 20000 \<and> total_keys r = 0))"
proof -
  let ?db = "\<lparr>window_events = [window_row 0 ''Chrome'' 20000, window_row 90000000 ''Mail'' 20001],
        key_events = [key_row 90000001 12 20001]\<rparr>"
  have h1: "window_row 0 ''Chrome'' 20000 \<in> set (window_events ?db)" by simp
  have h2: "w_logical_date (window_row 0 ''Chrome'' 20000) = 20000"
    by (simp add: window_row_def)
  have h3: "20000 \<notin> k_logical_date ` set (key_events ?db)"
    by (simp add: key_row_def)
  have h4: "where_clause None None (window_row 0 ''Chrome'' 20000)"
    by (simp add: where_clause_def)
  have h5: "length (filter (\<lambda>d'. 20000 < d')
           (remdups (map w_logical_date
              (filter (where_clause None None) (window_events ?db))))) < 30"
    by (simp add: where_clause_def window_row_def)
  from overview_keeps_date_without_key_events [OF h1 h2 h3 h4 h5] h1 h2 h3 h4
  show ?thesis by blast
qed

text \<open>
  C10. A date that has key events and no window events is listed by
  \<^verbatim>\<open>getAvailableDates\<close> and is in no row of \<^verbatim>\<open>getOverview\<close>, for every range and
  limit.
\<close>

theorem key_only_date_listed_but_not_in_overview:
  assumes "d \<in> k_logical_date ` set (key_events db)"
    and "d \<notin> w_logical_date ` set (window_events db)"
  shows "(\<exists>dates. getAvailableDates formatDateLabel (Some db) = Inr dates \<and> d \<in> fst ` set dates)
       \<and> (\<exists>rows. getOverview (Some db) fromDate toDate limit = Inr rows
             \<and> d \<notin> logical_date ` set rows)"
proof
  show "\<exists>dates. getAvailableDates formatDateLabel (Some db) = Inr dates \<and> d \<in> fst ` set dates"
    using assms(1) by (force simp: getAvailableDates_def)
next
  let ?w = "filter (where_clause fromDate toDate) (window_events db)"
  have "d \<notin> set (take limit (order_by_desc (remdups (map w_logical_date ?w))))"
  proof
    assume "d \<in> set (take limit (order_by_desc (remdups (map w_logical_date ?w))))"
    then have "d \<in> set (order_by_desc (remdups (map w_logical_date ?w)))"
      by (rule in_set_takeD)
    with assms(2) show False by auto
  qed
  then show "\<exists>rows. getOverview (Some db) fromDate toDate limit = Inr rows
      \<and> d \<notin> logical_date ` set rows"
    by (auto simp: getOverview_def Let_def)
qed

theorem key_only_date_listed_but_not_in_overview_witness:
  "20002 \<in> k_logical_date ` set (key_events
       \<lparr>window_events = [window_row 0 ''Chrome'' 20000], key_events = [key_row 5 9 20002]\<rparr>)
   \<and> 20002 \<notin> w_logical_date ` set (window_events
       \<lparr>window_events = [window_row 0 ''Chrome'' 20000], key_events = [key_row 5 9 20002]\<rparr>)
   \<and> (\<exists>dates. getAvailableDates (\<lambda>d. ''label'') (Some
       \<lparr>window_events = [window_row 0 ''Chrome'' 20000], key_events = [key_row 5 9 20002]\<rparr>)
         = Inr dates \<and> 20002 \<in> fst ` set dates)
   \<and> (\<exists>rows. getOverview (Some
       \<lparr>window_events = [window_row 0 ''Chrome'' 20000], key_events = [key_row 5 9 20002]\<rparr>)
         None None 30 = Inr rows \<and> 20002 \<notin> logical_date ` set rows)"
proof -
  let ?db = "\<lparr>window_events = [window_row 0 ''Chrome'' 20000], key_events = [key_row 5 9 20002]\<rparr>"
  have h1: "20002 \<in> k_logical_date ` set (key_events ?db)"
    by (simp add: key_row_def)
  have h2: "20002 \<notin> w_logical_date ` set (window_events ?db)"
    by (simp add: window_row_def)
  from key_only_date_listed_but_not_in_overview [OF h1 h2, of "\<lambda>d. ''label''" None None 30] h1 h2
  show ?thesis by blast
qed

section \<open>Claims about the categorizer\<close>

text \<open>
  C7. \<open>categorize\<close> returns the category of the first rule, in configured order, whose
  pattern matches the subject, and \<open>uncategorized\<close> when no rule matches, in particular
  for the empty rule list.
\<close>

theorem categorize_first_match_wins:
  "(\<forall>i. i < length rules \<and> matches (pattern (rules ! i)) subject
        \<and> (\<forall>j<i. \<not> matches (pattern (rules ! j)) subject)
      \<longrightarrow> categorize matches subject rules = category (rules ! i))
   \<and> ((\<forall>r\<in>set rules. \<not> matches (pattern r) subject)
      \<longrightarrow> categorize matches subject rules = ''uncategorized'')
   \<and> categorize matches subject [] = ''uncategorized''"
proof (intro conjI allI impI)
  fix i
  assume "i < length rules \<and> matches (pattern (rules ! i)) subject
        \<and> (\<forall>j<i. \<not> matches (pattern (rules ! j)) subject)"
  then show "categorize matches subject rules = category (rules ! i)"
  proof (induction rules arbitrary: i)
    case Nil
    then show ?case by simp
  next
    case (Cons r rules)
    show ?case
    proof (cases i)
      case 0
      with Cons.prems show ?thesis by simp
    next
      case (Suc i')
      with Cons.prems have "\<not> matches (pattern r) subject" by auto
      moreover from Suc Cons.prems have "i' < length rules \<and> matches (pattern (rules ! i')) subject
          \<and> (\<forall>j<i'. \<not> matches (pattern (rules ! j)) subject)"
        by auto
      ultimately show ?thesis
        using Cons.IH [of i'] Suc by simp
    qed
  qed
next
  assume "\<forall>r\<in>set rules. \<not> matches (pattern r) subject"
  then show "categorize matches subject rules = ''uncategorized''"
    by (induction rules) simp_all
next
  show "categorize matches subject [] = ''uncategorized''" by simp
qed


theorem categorize_first_match_wins_witness:
  "(0::nat) < length [\<lparr>pattern = ''Chrome|Safari'', category = ''Browser''\<rparr>,
                     \<lparr>pattern = ''Gmail'', category = ''Email''\<rparr>]
   \<and> literal_match ''Chrome|Safari'' ''Google Chrome - Gmail''
   \<and> literal_match ''Gmail'' ''Google Chrome - Gmail''
   \<and> categorize literal_match ''Google Chrome - Gmail''
         [\<lparr>pattern = ''Chrome|Safari'', category = ''Browser''\<rparr>,
          \<lparr>pattern = ''Gmail'', category = ''Email''\<rparr>] = ''Browser''
   \<and> categorize literal_match ''Terminal'' [] = ''uncategorized''"
proof -
  let ?rules = "[\<lparr>pattern = ''Chrome|Safari'', category = ''Browser''\<rparr>,
                 \<lparr>pattern = ''Gmail'', category = ''Email''\<rparr>]"
  have m1: "literal_match ''Chrome|Safari'' ''Google Chrome - Gmail''" by code_simp
  have m2: "literal_match ''Gmail'' ''Google Chrome - Gmail''" by code_simp
  have hyp: "(0::nat) < length ?rules
      \<and> literal_match (pattern (?rules ! 0)) ''Google Chrome - Gmail''
      \<and> (\<forall>j<0::nat. \<not> literal_match (pattern (?rules ! j)) ''Google Chrome - Gmail'')"
    using m1 by simp
  from categorize_first_match_wins [of ?rules literal_match "''Google Chrome - Gmail''"]
  have "categorize literal_match ''Google Chrome - Gmail'' ?rules = category (?rules ! 0)"
    and "categorize literal_match ''Google Chrome - Gmail'' [] = ''uncategorized''"
    using hyp by blast+
  then show ?thesis using m1 m2 by simp
qed

end
